theory Spec2Isabelle
  imports Main "HOL-Library.Word"
begin

section \<open>The semaphore of rwlock.h\<close>

text \<open>
  \<^verbatim>\<open>class Semaphore { size_t m_avail{ 1 }; std::mutex m_mutex; std::condition_variable m_cv; }\<close>

  The only data field is \<open>m_avail\<close>, a \<open>size_t\<close>, taken here as a 64-bit unsigned word
  (its arithmetic wraps). \<open>m_mutex\<close> and \<open>m_cv\<close> carry no data: every access to
  \<open>m_avail\<close> happens with \<open>m_mutex\<close> locked, so \<open>Acquire\<close> and \<open>Release\<close> are
  atomic actions on \<open>m_avail\<close>, and the predicate wait
  \<^verbatim>\<open>m_cv.wait(lock, [this] { return m_avail > 0; })\<close> lets \<open>Acquire\<close> go on only in a
  state with \<open>m_avail > 0\<close>. A caller that has to wait is the value \<open>None\<close>.
\<close>

record Semaphore =
  m_avail :: "64 word"

definition Semaphore_init :: Semaphore where
  "Semaphore_init = \<lparr>m_avail = 1\<rparr>"

definition Acquire :: "Semaphore \<Rightarrow> Semaphore option" where
  "Acquire s = (if m_avail s > 0 then Some (s\<lparr>m_avail := m_avail s - 1\<rparr>) else None)"

definition Release :: "Semaphore \<Rightarrow> Semaphore" where
  "Release s = s\<lparr>m_avail := m_avail s + 1\<rparr>"

text \<open>The availability as a natural number.\<close>

definition avail :: "Semaphore \<Rightarrow> nat" where
  "avail s = unat (m_avail s)"

text \<open>
  A history of calls on one semaphore, in the order in which they take \<open>m_mutex\<close>.
  Only completed calls appear in a history, so a history with an \<open>Acquire\<close> that would
  have to wait has no final state.
\<close>

datatype sem_call = CallAcquire | CallRelease

fun sem_calls :: "sem_call list \<Rightarrow> Semaphore \<Rightarrow> Semaphore option" where
  "sem_calls [] s = Some s"
| "sem_calls (CallAcquire # cs) s =
     (case Acquire s of None \<Rightarrow> None | Some s' \<Rightarrow> sem_calls cs s')"
| "sem_calls (CallRelease # cs) s = sem_calls cs (Release s)"

text \<open>
  \<open>paired k cs\<close>: in the history \<open>cs\<close>, started with \<open>k\<close> acquisitions outstanding, every
  \<open>Release\<close> follows an \<open>Acquire\<close> that has not been released yet.
\<close>

fun paired :: "nat \<Rightarrow> sem_call list \<Rightarrow> bool" where
  "paired k [] = True"
| "paired k (CallAcquire # cs) = paired (Suc k) cs"
| "paired k (CallRelease # cs) = (0 < k \<and> paired (k - 1) cs)"

section \<open>The lock\<close>

text \<open>
  \<^verbatim>\<open>typedef enum { ReadersPriority, WritersPriority, FairOrder } RWLockMode;\<close>

  An unscoped C enumeration: an integer with three named values. The switches of the
  public operations have a \<open>default\<close> branch, so the mode is kept as the integer it is.
\<close>

type_synonym RWLockMode = int

definition ReadersPriority :: RWLockMode where
  "ReadersPriority = 0"

definition WritersPriority :: RWLockMode where
  "WritersPriority = 1"

definition FairOrder :: RWLockMode where
  "FairOrder = 2"

text \<open>
  The counters are \<open>long\<close>; their overflow is undefined in C++ and needs more than
  \<open>2^31\<close> threads inside the lock at once, so they are unbounded integers here.
\<close>

record RWLock =
  m_mode :: RWLockMode
  m_order :: Semaphore
  m_resource :: Semaphore
  m_rmutex :: Semaphore
  m_wmutex :: Semaphore
  m_readcount :: int
  m_writecount :: int

text \<open>\<^verbatim>\<open>RWLock(RWLockMode mode = FairOrder) : m_mode(mode) {}\<close>\<close>

definition RWLock_init :: "RWLockMode \<Rightarrow> RWLock" where
  "RWLock_init mode = \<lparr>m_mode = mode, m_order = Semaphore_init, m_resource = Semaphore_init,
     m_rmutex = Semaphore_init, m_wmutex = Semaphore_init, m_readcount = 0, m_writecount = 0\<rparr>"

definition RWLock_default :: RWLock where
  "RWLock_default = RWLock_init FairOrder"

subsection \<open>Statements of the private member functions\<close>

text \<open>
  The twelve private member functions are straight-line code over four kinds of
  statement: \<open>g.Acquire();\<close>, \<open>g.Release();\<close>, \<open>if (++c == 1) s\<close> and
  \<open>if (--c == 0) s\<close>, for a semaphore field \<open>g\<close> and a counter field \<open>c\<close>. Each body is
  kept as the list of its statements, so that the same text is run by one thread alone
  and interleaved with other threads.
\<close>

datatype sem_field = M_order | M_resource | M_rmutex | M_wmutex

datatype count_field = M_readcount | M_writecount

datatype stmt =
    SemAcquire sem_field
  | SemRelease sem_field
  | IfPreIncIs1 count_field stmt
  | IfPreDecIs0 count_field stmt

fun sem :: "sem_field \<Rightarrow> RWLock \<Rightarrow> Semaphore" where
  "sem M_order L = m_order L"
| "sem M_resource L = m_resource L"
| "sem M_rmutex L = m_rmutex L"
| "sem M_wmutex L = m_wmutex L"

fun sem_update :: "sem_field \<Rightarrow> Semaphore \<Rightarrow> RWLock \<Rightarrow> RWLock" where
  "sem_update M_order s L = L\<lparr>m_order := s\<rparr>"
| "sem_update M_resource s L = L\<lparr>m_resource := s\<rparr>"
| "sem_update M_rmutex s L = L\<lparr>m_rmutex := s\<rparr>"
| "sem_update M_wmutex s L = L\<lparr>m_wmutex := s\<rparr>"

fun count :: "count_field \<Rightarrow> RWLock \<Rightarrow> int" where
  "count M_readcount L = m_readcount L"
| "count M_writecount L = m_writecount L"

fun count_update :: "count_field \<Rightarrow> int \<Rightarrow> RWLock \<Rightarrow> RWLock" where
  "count_update M_readcount v L = L\<lparr>m_readcount := v\<rparr>"
| "count_update M_writecount v L = L\<lparr>m_writecount := v\<rparr>"

definition AcquireExclusive1 :: "stmt list" where
  "AcquireExclusive1 = [SemAcquire M_resource]"

definition AcquireExclusive2 :: "stmt list" where
  "AcquireExclusive2 =
     [SemAcquire M_wmutex,
      IfPreIncIs1 M_writecount (SemAcquire M_order),
      SemRelease M_wmutex,
      SemAcquire M_resource]"

definition AcquireExclusive3 :: "stmt list" where
  "AcquireExclusive3 =
     [SemAcquire M_order,
      SemAcquire M_resource,
      SemRelease M_order]"

definition ReleaseExclusive1 :: "stmt list" where
  "ReleaseExclusive1 = [SemRelease M_resource]"

definition ReleaseExclusive2 :: "stmt list" where
  "ReleaseExclusive2 =
     [SemRelease M_resource,
      SemAcquire M_wmutex,
      IfPreDecIs0 M_writecount (SemRelease M_order),
      SemRelease M_wmutex]"

definition ReleaseExclusive3 :: "stmt list" where
  "ReleaseExclusive3 = [SemRelease M_resource]"

definition AcquireShared1 :: "stmt list" where
  "AcquireShared1 =
     [SemAcquire M_rmutex,
      IfPreIncIs1 M_readcount (SemAcquire M_resource),
      SemRelease M_rmutex]"

definition AcquireShared2 :: "stmt list" where
  "AcquireShared2 =
     [SemAcquire M_order,
      SemAcquire M_rmutex,
      IfPreIncIs1 M_readcount (SemAcquire M_resource),
      SemRelease M_rmutex,
      SemRelease M_order]"

definition AcquireShared3 :: "stmt list" where
  "AcquireShared3 =
     [SemAcquire M_order,
      SemAcquire M_rmutex,
      IfPreIncIs1 M_readcount (SemAcquire M_resource),
      SemRelease M_order,
      SemRelease M_rmutex]"

definition ReleaseShared1 :: "stmt list" where
  "ReleaseShared1 =
     [SemAcquire M_rmutex,
      IfPreDecIs0 M_readcount (SemRelease M_resource),
      SemRelease M_rmutex]"

definition ReleaseShared2 :: "stmt list" where
  "ReleaseShared2 =
     [SemAcquire M_rmutex,
      IfPreDecIs0 M_readcount (SemRelease M_resource),
      SemRelease M_rmutex]"

definition ReleaseShared3 :: "stmt list" where
  "ReleaseShared3 =
     [SemAcquire M_rmutex,
      IfPreDecIs0 M_readcount (SemRelease M_resource),
      SemRelease M_rmutex]"

text \<open>The public operations: \<^verbatim>\<open>switch (m_mode)\<close> with a \<open>default\<close> branch.\<close>

definition AcquireExclusive :: "RWLockMode \<Rightarrow> stmt list" where
  "AcquireExclusive mode =
     (if mode = ReadersPriority then AcquireExclusive1
      else if mode = WritersPriority then AcquireExclusive2
      else AcquireExclusive3)"

definition ReleaseExclusive :: "RWLockMode \<Rightarrow> stmt list" where
  "ReleaseExclusive mode =
     (if mode = ReadersPriority then ReleaseExclusive1
      else if mode = WritersPriority then ReleaseExclusive2
      else ReleaseExclusive3)"

definition AcquireShared :: "RWLockMode \<Rightarrow> stmt list" where
  "AcquireShared mode =
     (if mode = ReadersPriority then AcquireShared1
      else if mode = WritersPriority then AcquireShared2
      else AcquireShared3)"

definition ReleaseShared :: "RWLockMode \<Rightarrow> stmt list" where
  "ReleaseShared mode =
     (if mode = ReadersPriority then ReleaseShared1
      else if mode = WritersPriority then ReleaseShared2
      else ReleaseShared3)"

datatype opname = OpAcquireShared | OpReleaseShared | OpAcquireExclusive | OpReleaseExclusive

fun body :: "opname \<Rightarrow> RWLockMode \<Rightarrow> stmt list" where
  "body OpAcquireShared mode = AcquireShared mode"
| "body OpReleaseShared mode = ReleaseShared mode"
| "body OpAcquireExclusive mode = AcquireExclusive mode"
| "body OpReleaseExclusive mode = ReleaseExclusive mode"

subsection \<open>One statement, run by one thread\<close>

text \<open>
  \<open>stmt_step c L\<close> runs the first atomic action of statement \<open>c\<close> on the lock \<open>L\<close>. It
  gives the action done, the lock after it, and what is left of \<open>c\<close> to run (the guarded
  statement when the test of an \<open>if\<close> held, nothing otherwise); \<open>None\<close> when the action is
  an \<open>Acquire\<close> that has to wait. The counters are read and written only between
  \<open>Acquire\<close> and \<open>Release\<close> of their mutex semaphore (\<open>m_rmutex\<close> for \<open>m_readcount\<close>,
  \<open>m_wmutex\<close> for \<open>m_writecount\<close>; lemma \<open>counters_under_mutex\<close> below), so
  \<open>++c == 1\<close> and \<open>--c == 0\<close> are one action each.
\<close>

datatype event =
    Acquired sem_field
  | Released sem_field
  | Incremented count_field
  | Decremented count_field

fun stmt_step :: "stmt \<Rightarrow> RWLock \<Rightarrow> (event \<times> RWLock \<times> stmt list) option" where
  "stmt_step (SemAcquire g) L =
     (case Acquire (sem g L) of
        None \<Rightarrow> None
      | Some s \<Rightarrow> Some (Acquired g, sem_update g s L, []))"
| "stmt_step (SemRelease g) L =
     Some (Released g, sem_update g (Release (sem g L)) L, [])"
| "stmt_step (IfPreIncIs1 c b) L =
     (let v = count c L + 1
      in Some (Incremented c, count_update c v L, if v = 1 then [b] else []))"
| "stmt_step (IfPreDecIs0 c b) L =
     (let v = count c L - 1
      in Some (Decremented c, count_update c v L, if v = 0 then [b] else []))"

lemma stmt_step_smaller:
  "stmt_step c L = Some (e, L', pre) \<Longrightarrow> size_list size pre < Suc (size c)"
  by (cases c) (auto simp: Let_def split: option.splits if_splits)

text \<open>
  \<open>run cs L\<close>: one thread runs the statements \<open>cs\<close> with no other thread around. It gives
  the actions in the order in which they were done and the final lock, or \<open>None\<close> when an
  \<open>Acquire\<close> has to wait (for ever, since no other thread can release).
\<close>

function run :: "stmt list \<Rightarrow> RWLock \<Rightarrow> (event list \<times> RWLock) option" where
  "run [] L = Some ([], L)"
| "run (c # cs) L =
     (case stmt_step c L of
        None \<Rightarrow> None
      | Some (e, L', pre) \<Rightarrow>
          (case run (pre @ cs) L' of
             None \<Rightarrow> None
           | Some (es, L'') \<Rightarrow> Some (e # es, L'')))"
  by pat_completeness auto
termination
  by (relation "measure (\<lambda>(cs, L). size_list size cs)")
     (auto dest: stmt_step_smaller)

text \<open>A public operation reads \<open>m_mode\<close> and runs the body it selects.\<close>

definition call :: "opname \<Rightarrow> RWLock \<Rightarrow> (event list \<times> RWLock) option" where
  "call op L = run (body op (m_mode L)) L"

section \<open>Threads using one lock\<close>

text \<open>
  The callers of the lock. A thread is outside the lock, or holds it shared or exclusive
  (its \<open>AcquireShared\<close> or \<open>AcquireExclusive\<close> has returned and it has not yet called
  the matching release), or is inside a public operation with the statements it still
  has to run. The threads follow the usage shown in the header of \<open>rwlock.h\<close>: an
  acquire is called from outside the lock only, \<open>ReleaseShared\<close> only by a thread that
  holds the lock shared and \<open>ReleaseExclusive\<close> only by one that holds it exclusive.
\<close>

datatype thread =
    Outside
  | HoldsShared
  | HoldsExclusive
  | Inside opname "stmt list"

text \<open>One lock and the threads that use it, numbered from 0.\<close>

record system =
  lock :: RWLock
  threads :: "thread list"

definition new_system :: "RWLockMode \<Rightarrow> nat \<Rightarrow> system" where
  "new_system mode n = \<lparr>lock = RWLock_init mode, threads = replicate n Outside\<rparr>"

text \<open>
  What the scheduler lets a thread do next: call a public operation, or run its next
  atomic action (the return from the operation when no statement is left).
\<close>

datatype action = Call opname | Step

fun returned :: "opname \<Rightarrow> thread" where
  "returned OpAcquireShared = HoldsShared"
| "returned OpAcquireExclusive = HoldsExclusive"
| "returned OpReleaseShared = Outside"
| "returned OpReleaseExclusive = Outside"

fun may_call :: "thread \<Rightarrow> opname \<Rightarrow> bool" where
  "may_call Outside OpAcquireShared = True"
| "may_call Outside OpAcquireExclusive = True"
| "may_call HoldsShared OpReleaseShared = True"
| "may_call HoldsExclusive OpReleaseExclusive = True"
| "may_call _ _ = False"

text \<open>
  A call reads \<open>m_mode\<close> (the \<open>switch\<close>) and enters the body it selects. \<open>None\<close>: the
  thread cannot do this now, because it would have to wait in \<open>Acquire\<close> or because the
  call is not one it may make in its state.
\<close>

fun thread_step :: "action \<Rightarrow> thread \<Rightarrow> RWLock \<Rightarrow> (thread \<times> RWLock) option" where
  "thread_step (Call op) t L =
     (if may_call t op then Some (Inside op (body op (m_mode L)), L) else None)"
| "thread_step Step (Inside op []) L = Some (returned op, L)"
| "thread_step Step (Inside op (c # cs)) L =
     (case stmt_step c L of
        None \<Rightarrow> None
      | Some (e, L', pre) \<Rightarrow> Some (Inside op (pre @ cs), L'))"
| "thread_step Step _ L = None"

definition sys_step :: "nat \<times> action \<Rightarrow> system \<Rightarrow> system option" where
  "sys_step ia S =
     (case ia of (i, a) \<Rightarrow>
        if i < length (threads S)
        then (case thread_step a (threads S ! i) (lock S) of
                None \<Rightarrow> None
              | Some (t', L') \<Rightarrow> Some \<lparr>lock = L', threads = (threads S)[i := t']\<rparr>)
        else None)"

text \<open>
  An interleaving is a list of pairs of a thread number and what it does; \<open>sys_run\<close>
  gives the state it leads to, when each of its steps can be taken in turn.
\<close>

fun sys_run :: "(nat \<times> action) list \<Rightarrow> system \<Rightarrow> system option" where
  "sys_run [] S = Some S"
| "sys_run (ia # ias) S =
     (case sys_step ia S of None \<Rightarrow> None | Some S' \<Rightarrow> sys_run ias S')"

section \<open>What the threads still have to do\<close>

text \<open>
  The statements a thread will run until it is outside the lock again: the rest of the
  operation it is in, followed by the matching release when it is acquiring or holding.
  The state of the lock is accounted for by these lists alone.
\<close>

fun future :: "RWLockMode \<Rightarrow> thread \<Rightarrow> stmt list" where
  "future m Outside = []"
| "future m HoldsShared = ReleaseShared m"
| "future m HoldsExclusive = ReleaseExclusive m"
| "future m (Inside OpAcquireShared cs) = cs @ ReleaseShared m"
| "future m (Inside OpAcquireExclusive cs) = cs @ ReleaseExclusive m"
| "future m (Inside OpReleaseShared cs) = cs"
| "future m (Inside OpReleaseExclusive cs) = cs"

text \<open>
  The lists of statements that can be left of a body while it runs, and all futures of
  a thread under a mode.
\<close>

fun conts :: "stmt list \<Rightarrow> stmt list list" where
  "conts [] = [[]]"
| "conts (c # cs) =
     (c # cs) #
     (case c of IfPreIncIs1 _ b \<Rightarrow> [b # cs] | IfPreDecIs0 _ b \<Rightarrow> [b # cs] | _ \<Rightarrow> []) @
     conts cs"

definition futures :: "RWLockMode \<Rightarrow> stmt list list" where
  "futures m = conts (AcquireShared m @ ReleaseShared m) @
               conts (AcquireExclusive m @ ReleaseExclusive m)"

text \<open>
  \<open>holds g cs\<close> is 1 when the first unguarded statement on the semaphore \<open>g\<close> in \<open>cs\<close> is
  a release: the thread itself holds \<open>g\<close>. \<open>counted c cs\<close> is 1 when the first statement on
  the counter \<open>c\<close> is the decrement: the thread is counted in \<open>c\<close>.
\<close>

fun holds :: "sem_field \<Rightarrow> stmt list \<Rightarrow> nat" where
  "holds g [] = 0"
| "holds g (SemAcquire h # cs) = (if h = g then 0 else holds g cs)"
| "holds g (SemRelease h # cs) = (if h = g then 1 else holds g cs)"
| "holds g (IfPreIncIs1 c b # cs) = holds g cs"
| "holds g (IfPreDecIs0 c b # cs) = holds g cs"

fun counted :: "count_field \<Rightarrow> stmt list \<Rightarrow> nat" where
  "counted c [] = 0"
| "counted c (IfPreIncIs1 d b # cs) = (if d = c then 0 else counted c cs)"
| "counted c (IfPreDecIs0 d b # cs) = (if d = c then 1 else counted c cs)"
| "counted c (SemAcquire g # cs) = counted c cs"
| "counted c (SemRelease g # cs) = counted c cs"

text \<open>
  Each counter has the mutex semaphore that guards it and the semaphore that the counted
  threads hold as a group (the first one in acquires it, the last one out releases it).
  A thread is entering when it is already counted and about to acquire for the group;
  it is active when it is counted and not entering.
\<close>

fun guard_of :: "count_field \<Rightarrow> sem_field" where
  "guard_of M_readcount = M_rmutex"
| "guard_of M_writecount = M_wmutex"

fun group_gate :: "count_field \<Rightarrow> sem_field" where
  "group_gate M_readcount = M_resource"
| "group_gate M_writecount = M_order"

fun entering :: "count_field \<Rightarrow> stmt list \<Rightarrow> nat" where
  "entering c (SemAcquire g # cs) =
     (if g = group_gate c \<and> holds (guard_of c) cs = 1 \<and> counted c cs = 1 then 1 else 0)"
| "entering c cs = 0"

definition active :: "count_field \<Rightarrow> stmt list \<Rightarrow> nat" where
  "active c cs = counted c cs - entering c cs"

text \<open>Sums over all threads.\<close>

definition sum_over :: "('a \<Rightarrow> nat) \<Rightarrow> 'a list \<Rightarrow> nat" where
  "sum_over f xs = sum_list (map f xs)"

fun group_held :: "sem_field \<Rightarrow> stmt list list \<Rightarrow> nat" where
  "group_held M_resource fs = (if 0 < sum_over (active M_readcount) fs then 1 else 0)"
| "group_held M_order fs = (if 0 < sum_over (active M_writecount) fs then 1 else 0)"
| "group_held M_rmutex fs = 0"
| "group_held M_wmutex fs = 0"

text \<open>
  The invariant: every semaphore is available, or held by one thread, or held by the
  group of its active threads, exactly one of the three; and each counter is the number
  of threads counted in it.
\<close>

definition ghost_inv :: "RWLock \<Rightarrow> stmt list list \<Rightarrow> bool" where
  "ghost_inv L fs \<longleftrightarrow>
     (\<forall>g. avail (sem g L) + sum_over (holds g) fs + group_held g fs = 1) \<and>
     (\<forall>c. count c L = int (sum_over (counted c) fs))"

definition sys_inv :: "RWLockMode \<Rightarrow> nat \<Rightarrow> system \<Rightarrow> bool" where
  "sys_inv m n S \<longleftrightarrow>
     length (threads S) = n \<and> m_mode (lock S) = m \<and>
     (\<forall>t \<in> set (threads S). future m t \<in> set (futures m)) \<and>
     ghost_inv (lock S) (map (future m) (threads S))"

text \<open>The counter a statement reads and writes, if any.\<close>

fun counter_of :: "stmt \<Rightarrow> count_field option" where
  "counter_of (IfPreIncIs1 c b) = Some c"
| "counter_of (IfPreDecIs0 c b) = Some c"
| "counter_of (SemAcquire g) = None"
| "counter_of (SemRelease g) = None"

section \<open>Properties of the semaphore\<close>

lemma Acquire_None_iff: "Acquire s = None \<longleftrightarrow> m_avail s = 0"
  by (auto simp: Acquire_def word_neq_0_conv [symmetric])

lemma Acquire_Some_unat:
  assumes "Acquire s = Some s'"
  shows "unat (m_avail s) = Suc (unat (m_avail s'))"
proof -
  from assms have nz: "m_avail s \<noteq> 0" and s': "m_avail s' = m_avail s - 1"
    by (auto simp: Acquire_def split: if_splits)
  from nz have "unat (m_avail s - 1) = unat (m_avail s) - 1"
    by (rule unat_minus_one)
  moreover from nz have "0 < unat (m_avail s)"
    by (simp add: unat_gt_0)
  ultimately show ?thesis using s' by simp
qed

text \<open>
  C3. \<open>Acquire\<close> has to wait exactly when \<open>m_avail\<close> is 0; when it completes it has
  decremented \<open>m_avail\<close> by one, from a positive value (no wrap-around below 0), and it
  takes \<open>m_avail = 1\<close> to 0.
\<close>

theorem Acquire_blocks_or_decrements:
  "(Acquire s = None \<longleftrightarrow> m_avail s = 0) \<and>
   (\<forall>s'. Acquire s = Some s' \<longrightarrow>
      m_avail s' = m_avail s - 1 \<and> unat (m_avail s) = unat (m_avail s') + 1 \<and>
      (m_avail s = 1 \<longrightarrow> m_avail s' = 0))"
proof (intro conjI allI impI)
  show "Acquire s = None \<longleftrightarrow> m_avail s = 0" by (rule Acquire_None_iff)
next
  fix s' assume a: "Acquire s = Some s'"
  then show "m_avail s' = m_avail s - 1"
    by (auto simp: Acquire_def split: if_splits)
  from a show "unat (m_avail s) = unat (m_avail s') + 1"
    by (simp add: Acquire_Some_unat)
  assume "m_avail s = 1"
  with a show "m_avail s' = 0"
    by (auto simp: Acquire_def split: if_splits)
qed

theorem Acquire_blocks_or_decrements_witness:
  "Acquire Semaphore_init = Some \<lparr>m_avail = 0\<rparr> \<and>
   Acquire \<lparr>m_avail = 0\<rparr> = None \<and>
   unat (m_avail Semaphore_init) = unat (m_avail \<lparr>m_avail = 0 :: 64 word\<rparr>) + 1"
proof -
  have a: "Acquire Semaphore_init = Some \<lparr>m_avail = 0\<rparr>"
    by (simp add: Acquire_def Semaphore_init_def)
  have b: "m_avail \<lparr>m_avail = 0 :: 64 word\<rparr> = 0" by simp
  from Acquire_blocks_or_decrements [of Semaphore_init] a
  have "unat (m_avail Semaphore_init) = unat (m_avail \<lparr>m_avail = 0 :: 64 word\<rparr>) + 1"
    by blast
  moreover from Acquire_blocks_or_decrements [of "\<lparr>m_avail = 0\<rparr>"] b
  have "Acquire \<lparr>m_avail = 0\<rparr> = None" by blast
  ultimately show ?thesis using a by blast
qed

lemma avail_Acquire: "Acquire s = Some s' \<Longrightarrow> avail s = Suc (avail s')"
  by (simp add: avail_def Acquire_Some_unat)

lemma avail_Release: "avail s \<le> 1 \<Longrightarrow> avail (Release s) = Suc (avail s)"
  by (simp add: avail_def Release_def unat_word_ariths)

lemma sem_calls_paired:
  "paired k cs \<Longrightarrow> avail s + k = 1 \<Longrightarrow> sem_calls cs s = Some s' \<Longrightarrow>
   avail s' \<le> 1 \<and> (cs \<noteq> [] \<and> last cs = CallRelease \<longrightarrow> avail s' = 1)"
proof (induction cs arbitrary: k s)
  case Nil
  then show ?case by simp
next
  case (Cons c cs)
  show ?case
  proof (cases c)
    case CallAcquire
    with Cons.prems obtain s1 where s1: "Acquire s = Some s1" "sem_calls cs s1 = Some s'"
      by (auto split: option.splits)
    from s1(1) Cons.prems(2) have k0: "k = 0" and a1: "avail s1 = 0"
      by (auto dest: avail_Acquire)
    from Cons.prems(1) CallAcquire have p: "paired (Suc k) cs" by simp
    have "avail s1 + Suc k = 1" using k0 a1 by simp
    from Cons.IH [OF p this s1(2)] have ih: "avail s' \<le> 1 \<and> (cs \<noteq> [] \<and> last cs = CallRelease \<longrightarrow> avail s' = 1)" .
    show ?thesis
    proof (cases "cs = []")
      case True then show ?thesis using ih CallAcquire by simp
    next
      case False then show ?thesis using ih by simp
    qed
  next
    case CallRelease
    with Cons.prems have k: "0 < k" and p: "paired (k - 1) cs"
      and r: "sem_calls cs (Release s) = Some s'" by auto
    from k Cons.prems(2) have a0: "avail s = 0" and k1: "k = 1" by auto
    then have ar: "avail (Release s) = 1" by (simp add: avail_Release)
    then have "avail (Release s) + (k - 1) = 1" using k1 by simp
    from Cons.IH [OF p this r] have ih: "avail s' \<le> 1 \<and> (cs \<noteq> [] \<and> last cs = CallRelease \<longrightarrow> avail s' = 1)" .
    show ?thesis
    proof (cases "cs = []")
      case True then show ?thesis using r ar by simp
    next
      case False then show ?thesis using ih by simp
    qed
  qed
qed

lemma avail_le1: "avail s \<le> 1 \<longleftrightarrow> m_avail s \<in> {0, 1}"
proof -
  have "unat (m_avail s) \<le> 1 \<longleftrightarrow> unat (m_avail s) = unat (0 :: 64 word) \<or> unat (m_avail s) = unat (1 :: 64 word)"
    by auto
  then show ?thesis
    unfolding avail_def by (simp only: word_unat_eq_iff [symmetric]) auto
qed

text \<open>
  C2, as stated, fails: \<open>Release\<close> is \<open>m_avail++\<close> with no cap, so a \<open>Release\<close> with no
  \<open>Acquire\<close> before it takes a fresh semaphore to \<open>m_avail = 2\<close>.
\<close>

theorem Release_unbalanced_counterexample:
  "sem_calls [CallRelease] Semaphore_init = Some \<lparr>m_avail = 2\<rparr> \<and>
   m_avail \<lparr>m_avail = 2 :: 64 word\<rparr> \<notin> {0, 1}"
  by (simp add: Release_def Semaphore_init_def)

text \<open>
  C2, amended: in every history in which each \<open>Release\<close> follows an \<open>Acquire\<close> not yet
  released, \<open>m_avail\<close> is 0 or 1 after the history, and it is exactly 1 when the last call
  was a \<open>Release\<close>.
\<close>

theorem paired_calls_binary:
  assumes "paired 0 cs" and "sem_calls cs Semaphore_init = Some s"
  shows "m_avail s \<in> {0, 1} \<and> (cs \<noteq> [] \<and> last cs = CallRelease \<longrightarrow> m_avail s = 1)"
proof -
  have "avail Semaphore_init + 0 = 1" by (simp add: avail_def Semaphore_init_def)
  from sem_calls_paired [OF assms(1) this assms(2)]
  have r: "avail s \<le> 1 \<and> (cs \<noteq> [] \<and> last cs = CallRelease \<longrightarrow> avail s = 1)" .
  have "avail s = 1 \<longleftrightarrow> m_avail s = 1"
    unfolding avail_def by (simp add: word_unat_eq_iff)
  with r avail_le1 [of s] show ?thesis by auto
qed

theorem paired_calls_binary_witness:
  "paired 0 [CallAcquire, CallRelease] \<and>
   sem_calls [CallAcquire, CallRelease] Semaphore_init = Some \<lparr>m_avail = 1\<rparr> \<and>
   m_avail \<lparr>m_avail = 1 :: 64 word\<rparr> = 1"
proof -
  have p: "paired 0 [CallAcquire, CallRelease]" by simp
  have r: "sem_calls [CallAcquire, CallRelease] Semaphore_init = Some \<lparr>m_avail = 1\<rparr>"
    by (simp add: Acquire_def Release_def Semaphore_init_def)
  from paired_calls_binary [OF p r] show ?thesis using p r by simp
qed

section \<open>The operations, run by one thread alone\<close>

lemma mode_distinct:
  "ReadersPriority \<noteq> WritersPriority" "ReadersPriority \<noteq> FairOrder" "WritersPriority \<noteq> FairOrder"
  "WritersPriority \<noteq> ReadersPriority" "FairOrder \<noteq> ReadersPriority" "FairOrder \<noteq> WritersPriority"
  by (simp_all add: ReadersPriority_def WritersPriority_def FairOrder_def)

lemma Acquire_simp:
  "Acquire s = (if 0 < m_avail s then Some (s\<lparr>m_avail := m_avail s - 1\<rparr>) else None)"
  by (simp add: Acquire_def)

lemmas bodies =
  AcquireExclusive1_def AcquireExclusive2_def AcquireExclusive3_def
  ReleaseExclusive1_def ReleaseExclusive2_def ReleaseExclusive3_def
  AcquireShared1_def AcquireShared2_def AcquireShared3_def
  ReleaseShared1_def ReleaseShared2_def ReleaseShared3_def

lemmas dispatch = AcquireExclusive_def ReleaseExclusive_def AcquireShared_def ReleaseShared_def

text \<open>
  C4. Under \<open>ReadersPriority\<close>: \<open>AcquireShared\<close> acquires \<open>m_rmutex\<close>, increments
  \<open>m_readcount\<close>, acquires \<open>m_resource\<close> exactly when the count became 1, and releases
  \<open>m_rmutex\<close>; \<open>ReleaseShared\<close> acquires \<open>m_rmutex\<close>, decrements \<open>m_readcount\<close>,
  releases \<open>m_resource\<close> exactly when the count reached 0, and releases \<open>m_rmutex\<close>;
  \<open>AcquireExclusive\<close> and \<open>ReleaseExclusive\<close> act on \<open>m_resource\<close> only.
\<close>

theorem ReadersPriority_protocol:
  assumes "m_mode L = ReadersPriority"
  shows "(call OpAcquireShared L =
      (if 0 < m_avail (m_rmutex L) \<and> (m_readcount L + 1 = 1 \<longrightarrow> 0 < m_avail (m_resource L))
       then Some ([Acquired M_rmutex, Incremented M_readcount] @
                  (if m_readcount L + 1 = 1 then [Acquired M_resource] else []) @
                  [Released M_rmutex],
                  L\<lparr>m_readcount := m_readcount L + 1,
                    m_resource := (if m_readcount L + 1 = 1
                       then (m_resource L)\<lparr>m_avail := m_avail (m_resource L) - 1\<rparr>
                       else m_resource L)\<rparr>)
       else None)) \<and>
   (call OpReleaseShared L =
      (if 0 < m_avail (m_rmutex L)
       then Some ([Acquired M_rmutex, Decremented M_readcount] @
                  (if m_readcount L - 1 = 0 then [Released M_resource] else []) @
                  [Released M_rmutex],
                  L\<lparr>m_readcount := m_readcount L - 1,
                    m_resource := (if m_readcount L - 1 = 0
                       then (m_resource L)\<lparr>m_avail := m_avail (m_resource L) + 1\<rparr>
                       else m_resource L)\<rparr>)
       else None)) \<and>
   (call OpAcquireExclusive L =
      (if 0 < m_avail (m_resource L)
       then Some ([Acquired M_resource],
                  L\<lparr>m_resource := (m_resource L)\<lparr>m_avail := m_avail (m_resource L) - 1\<rparr>\<rparr>)
       else None)) \<and>
   (call OpReleaseExclusive L =
       Some ([Released M_resource],
             L\<lparr>m_resource := (m_resource L)\<lparr>m_avail := m_avail (m_resource L) + 1\<rparr>\<rparr>))"
  using assms
  by (simp add: call_def dispatch bodies Acquire_simp Release_def Let_def)

theorem ReadersPriority_protocol_witness:
  "call OpAcquireShared (RWLock_init ReadersPriority) =
     Some ([Acquired M_rmutex, Incremented M_readcount, Acquired M_resource, Released M_rmutex],
           (RWLock_init ReadersPriority)\<lparr>m_readcount := 1, m_resource := \<lparr>m_avail = 0\<rparr>\<rparr>)"
  using ReadersPriority_protocol [of "RWLock_init ReadersPriority"]
  by (simp add: RWLock_init_def Semaphore_init_def)

text \<open>
  C5. Under \<open>WritersPriority\<close>: \<open>AcquireExclusive\<close> acquires \<open>m_wmutex\<close>, increments
  \<open>m_writecount\<close>, acquires \<open>m_order\<close> exactly when the count became 1, releases
  \<open>m_wmutex\<close>, then acquires \<open>m_resource\<close>; \<open>ReleaseExclusive\<close> releases \<open>m_resource\<close>,
  acquires \<open>m_wmutex\<close>, decrements \<open>m_writecount\<close>, releases \<open>m_order\<close> exactly when the
  count reached 0, and releases \<open>m_wmutex\<close>.
\<close>

theorem WritersPriority_exclusive_protocol:
  assumes "m_mode L = WritersPriority"
  shows "(call OpAcquireExclusive L =
      (if 0 < m_avail (m_wmutex L) \<and> (m_writecount L + 1 = 1 \<longrightarrow> 0 < m_avail (m_order L)) \<and>
          0 < m_avail (m_resource L)
       then Some ([Acquired M_wmutex, Incremented M_writecount] @
                  (if m_writecount L + 1 = 1 then [Acquired M_order] else []) @
                  [Released M_wmutex, Acquired M_resource],
                  L\<lparr>m_writecount := m_writecount L + 1,
                    m_order := (if m_writecount L + 1 = 1
                       then (m_order L)\<lparr>m_avail := m_avail (m_order L) - 1\<rparr>
                       else m_order L),
                    m_resource := (m_resource L)\<lparr>m_avail := m_avail (m_resource L) - 1\<rparr>\<rparr>)
       else None)) \<and>
   (call OpReleaseExclusive L =
      (if 0 < m_avail (m_wmutex L)
       then Some ([Released M_resource, Acquired M_wmutex, Decremented M_writecount] @
                  (if m_writecount L - 1 = 0 then [Released M_order] else []) @
                  [Released M_wmutex],
                  L\<lparr>m_resource := (m_resource L)\<lparr>m_avail := m_avail (m_resource L) + 1\<rparr>,
                    m_writecount := m_writecount L - 1,
                    m_order := (if m_writecount L - 1 = 0
                       then (m_order L)\<lparr>m_avail := m_avail (m_order L) + 1\<rparr>
                       else m_order L)\<rparr>)
       else None))"
  using assms
  by (simp add: call_def dispatch bodies mode_distinct Acquire_simp Release_def Let_def)

theorem WritersPriority_exclusive_protocol_witness:
  "call OpAcquireExclusive (RWLock_init WritersPriority) =
     Some ([Acquired M_wmutex, Incremented M_writecount, Acquired M_order, Released M_wmutex,
            Acquired M_resource],
           (RWLock_init WritersPriority)\<lparr>m_writecount := 1, m_order := \<lparr>m_avail = 0\<rparr>,
              m_resource := \<lparr>m_avail = 0\<rparr>\<rparr>)"
  using WritersPriority_exclusive_protocol [of "RWLock_init WritersPriority"]
  by (simp add: RWLock_init_def Semaphore_init_def)

text \<open>
  C6. \<open>AcquireShared\<close> under \<open>FairOrder\<close> and under \<open>WritersPriority\<close> do the same
  steps (acquire \<open>m_order\<close>, acquire \<open>m_rmutex\<close>, increment \<open>m_readcount\<close>, acquire
  \<open>m_resource\<close> exactly when the count became 1) and end in the same lock state; they
  differ in the order of the two releases: \<open>m_order\<close> before \<open>m_rmutex\<close> under
  \<open>FairOrder\<close>, \<open>m_rmutex\<close> before \<open>m_order\<close> under \<open>WritersPriority\<close>.
\<close>

theorem AcquireShared_release_order:
  "run (AcquireShared FairOrder) L =
      (if 0 < m_avail (m_order L) \<and> 0 < m_avail (m_rmutex L) \<and>
          (m_readcount L + 1 = 1 \<longrightarrow> 0 < m_avail (m_resource L))
       then Some ([Acquired M_order, Acquired M_rmutex, Incremented M_readcount] @
                  (if m_readcount L + 1 = 1 then [Acquired M_resource] else []) @
                  [Released M_order, Released M_rmutex],
                  L\<lparr>m_readcount := m_readcount L + 1,
                    m_resource := (if m_readcount L + 1 = 1
                       then (m_resource L)\<lparr>m_avail := m_avail (m_resource L) - 1\<rparr>
                       else m_resource L)\<rparr>)
       else None) \<and>
   run (AcquireShared WritersPriority) L =
      (if 0 < m_avail (m_order L) \<and> 0 < m_avail (m_rmutex L) \<and>
          (m_readcount L + 1 = 1 \<longrightarrow> 0 < m_avail (m_resource L))
       then Some ([Acquired M_order, Acquired M_rmutex, Incremented M_readcount] @
                  (if m_readcount L + 1 = 1 then [Acquired M_resource] else []) @
                  [Released M_rmutex, Released M_order],
                  L\<lparr>m_readcount := m_readcount L + 1,
                    m_resource := (if m_readcount L + 1 = 1
                       then (m_resource L)\<lparr>m_avail := m_avail (m_resource L) - 1\<rparr>
                       else m_resource L)\<rparr>)
       else None)"
  by (simp add: dispatch bodies mode_distinct Acquire_simp Release_def Let_def)

theorem AcquireShared_release_order_witness:
  "run (AcquireShared FairOrder) (RWLock_init FairOrder) =
     Some ([Acquired M_order, Acquired M_rmutex, Incremented M_readcount, Acquired M_resource,
            Released M_order, Released M_rmutex],
           (RWLock_init FairOrder)\<lparr>m_readcount := 1, m_resource := \<lparr>m_avail = 0\<rparr>\<rparr>) \<and>
   run (AcquireShared WritersPriority) (RWLock_init FairOrder) =
     Some ([Acquired M_order, Acquired M_rmutex, Incremented M_readcount, Acquired M_resource,
            Released M_rmutex, Released M_order],
           (RWLock_init FairOrder)\<lparr>m_readcount := 1, m_resource := \<lparr>m_avail = 0\<rparr>\<rparr>)"
  using AcquireShared_release_order [of "RWLock_init FairOrder"]
  by (simp add: RWLock_init_def Semaphore_init_def)

text \<open>
  C9. A lock constructed with no argument has mode \<open>FairOrder\<close>, and for every mode
  value other than \<open>ReadersPriority\<close> and \<open>WritersPriority\<close> (\<open>FairOrder\<close> is one) the four
  public operations run the third variant, the \<open>default\<close> branch of their switch.
\<close>

theorem default_mode_and_branch:
  "m_mode RWLock_default = FairOrder \<and>
   FairOrder \<noteq> ReadersPriority \<and> FairOrder \<noteq> WritersPriority \<and>
   (mode \<noteq> ReadersPriority \<and> mode \<noteq> WritersPriority \<longrightarrow>
      AcquireExclusive mode = AcquireExclusive3 \<and> ReleaseExclusive mode = ReleaseExclusive3 \<and>
      AcquireShared mode = AcquireShared3 \<and> ReleaseShared mode = ReleaseShared3) \<and>
   (m_mode L \<noteq> ReadersPriority \<and> m_mode L \<noteq> WritersPriority \<longrightarrow>
      call OpAcquireExclusive L = run AcquireExclusive3 L \<and>
      call OpReleaseExclusive L = run ReleaseExclusive3 L \<and>
      call OpAcquireShared L = run AcquireShared3 L \<and>
      call OpReleaseShared L = run ReleaseShared3 L)"
  by (simp add: RWLock_default_def RWLock_init_def dispatch call_def mode_distinct)

theorem default_mode_and_branch_witness:
  "AcquireExclusive 3 = AcquireExclusive3 \<and> ReleaseExclusive 3 = ReleaseExclusive3 \<and>
   AcquireShared 3 = AcquireShared3 \<and> ReleaseShared 3 = ReleaseShared3 \<and>
   call OpAcquireExclusive RWLock_default = run AcquireExclusive3 RWLock_default \<and>
   call OpReleaseExclusive RWLock_default = run ReleaseExclusive3 RWLock_default \<and>
   call OpAcquireShared RWLock_default = run AcquireShared3 RWLock_default \<and>
   call OpReleaseShared RWLock_default = run ReleaseShared3 RWLock_default"
  using default_mode_and_branch [of 3 RWLock_default]
  by (simp add: ReadersPriority_def WritersPriority_def)

text \<open>
  C10. The three variants of \<open>ReleaseShared\<close> are the same statements, so the public
  \<open>ReleaseShared\<close> does the same whatever the mode of the lock: acquire \<open>m_rmutex\<close>,
  decrement \<open>m_readcount\<close>, release \<open>m_resource\<close> exactly when the count reached 0,
  release \<open>m_rmutex\<close>.
\<close>

theorem ReleaseShared_mode_independent:
  "ReleaseShared1 = ReleaseShared2 \<and> ReleaseShared2 = ReleaseShared3 \<and>
   ReleaseShared mode = ReleaseShared1 \<and>
   run ReleaseShared1 L = run ReleaseShared2 L \<and> run ReleaseShared2 L = run ReleaseShared3 L \<and>
   call OpReleaseShared L =
      (if 0 < m_avail (m_rmutex L)
       then Some ([Acquired M_rmutex, Decremented M_readcount] @
                  (if m_readcount L - 1 = 0 then [Released M_resource] else []) @
                  [Released M_rmutex],
                  L\<lparr>m_readcount := m_readcount L - 1,
                    m_resource := (if m_readcount L - 1 = 0
                       then (m_resource L)\<lparr>m_avail := m_avail (m_resource L) + 1\<rparr>
                       else m_resource L)\<rparr>)
       else None)"
  by (simp add: call_def dispatch bodies Acquire_simp Release_def Let_def)

theorem ReleaseShared_mode_independent_witness:
  "ReleaseShared 0 = ReleaseShared1 \<and> ReleaseShared 1 = ReleaseShared1 \<and>
   ReleaseShared 2 = ReleaseShared1 \<and>
   call OpReleaseShared ((RWLock_init WritersPriority)\<lparr>m_readcount := 1, m_resource := \<lparr>m_avail = 0\<rparr>\<rparr>) =
     Some ([Acquired M_rmutex, Decremented M_readcount, Released M_resource, Released M_rmutex],
           RWLock_init WritersPriority)"
  using ReleaseShared_mode_independent [of 0] ReleaseShared_mode_independent [of 1]
    ReleaseShared_mode_independent [of 2
      "(RWLock_init WritersPriority)\<lparr>m_readcount := 1, m_resource := \<lparr>m_avail = 0\<rparr>\<rparr>"]
  by (simp add: RWLock_init_def Semaphore_init_def)

section \<open>The invariant of the interleaved runs\<close>

lemma sum_over_Nil [simp]: "sum_over f [] = 0"
  by (simp add: sum_over_def)

lemma sum_over_Cons [simp]: "sum_over f (x # xs) = f x + sum_over f xs"
  by (simp add: sum_over_def)

lemma sum_over_update:
  "i < length xs \<Longrightarrow> sum_over f (xs[i := y]) + f (xs ! i) = sum_over f xs + f y"
proof (induction xs arbitrary: i)
  case Nil
  then show ?case by simp
next
  case (Cons x xs)
  then show ?case by (cases i) auto
qed

lemma sum_over_mono: "(\<And>x. f x \<le> g x) \<Longrightarrow> sum_over f xs \<le> sum_over g xs"
  by (induction xs) (auto intro: add_mono)

lemma sum_over_add: "(\<And>x. f x + g x = h x) \<Longrightarrow> sum_over f xs + sum_over g xs = sum_over h xs"
proof (induction xs)
  case Nil
  then show ?case by simp
next
  case (Cons x xs)
  have "f x + g x = h x" by (rule Cons.prems)
  moreover have "sum_over f xs + sum_over g xs = sum_over h xs" by (rule Cons.IH) (rule Cons.prems)
  ultimately show ?case by simp
qed

lemma entering_le_counted: "entering c cs \<le> counted c cs"
  by (cases "(c, cs)" rule: entering.cases) auto

lemma guard_not_group: "guard_of c \<noteq> group_gate c"
  by (cases c) auto

lemma entering_le_holds: "entering c cs \<le> holds (guard_of c) cs"
  using guard_not_group [of c] by (cases "(c, cs)" rule: entering.cases) auto

lemma active_entering: "active c cs + entering c cs = counted c cs"
  using entering_le_counted [of c cs] by (simp add: active_def)

lemma stmt_step_SemAcquire:
  assumes "stmt_step (SemAcquire g) L = Some (e, L', pre)"
  shows "pre = []" "avail (sem g L) = Suc (avail (sem g L'))"
    "\<And>h. h \<noteq> g \<Longrightarrow> sem h L' = sem h L" "\<And>c. count c L' = count c L" "m_mode L' = m_mode L"
proof -
  from assms obtain s where s: "Acquire (sem g L) = Some s" and L': "L' = sem_update g s L"
    and "pre = []"
    by (auto split: option.splits)
  then show "pre = []" by simp
  have "sem g L' = s" using L' by (cases g) auto
  then show "avail (sem g L) = Suc (avail (sem g L'))" using s by (simp add: avail_Acquire)
  show "\<And>h. h \<noteq> g \<Longrightarrow> sem h L' = sem h L" using L' by (cases g; case_tac h) auto
  show "\<And>c. count c L' = count c L" using L' by (cases g; case_tac c) auto
  show "m_mode L' = m_mode L" using L' by (cases g) auto
qed

lemma stmt_step_SemRelease:
  assumes "stmt_step (SemRelease g) L = Some (e, L', pre)"
  shows "pre = []" "avail (sem g L) \<le> 1 \<Longrightarrow> avail (sem g L') = Suc (avail (sem g L))"
    "\<And>h. h \<noteq> g \<Longrightarrow> sem h L' = sem h L" "\<And>c. count c L' = count c L" "m_mode L' = m_mode L"
proof -
  from assms have L': "L' = sem_update g (Release (sem g L)) L" and "pre = []"
    by auto
  then show "pre = []" by simp
  have "sem g L' = Release (sem g L)" using L' by (cases g) auto
  then show "avail (sem g L) \<le> 1 \<Longrightarrow> avail (sem g L') = Suc (avail (sem g L))"
    by (simp add: avail_Release)
  show "\<And>h. h \<noteq> g \<Longrightarrow> sem h L' = sem h L" using L' by (cases g; case_tac h) auto
  show "\<And>c. count c L' = count c L" using L' by (cases g; case_tac c) auto
  show "m_mode L' = m_mode L" using L' by (cases g) auto
qed

lemma stmt_step_IfPreIncIs1:
  assumes "stmt_step (IfPreIncIs1 c b) L = Some (e, L', pre)"
  shows "pre = (if count c L' = 1 then [b] else [])" "count c L' = count c L + 1"
    "\<And>d. d \<noteq> c \<Longrightarrow> count d L' = count d L" "\<And>g. sem g L' = sem g L" "m_mode L' = m_mode L"
proof -
  from assms have L': "L' = count_update c (count c L + 1) L"
    and pre: "pre = (if count c L + 1 = 1 then [b] else [])"
    by (auto simp: Let_def)
  show "count c L' = count c L + 1" using L' by (cases c) auto
  then show "pre = (if count c L' = 1 then [b] else [])" using pre by simp
  show "\<And>d. d \<noteq> c \<Longrightarrow> count d L' = count d L" using L' by (cases c; case_tac d) auto
  show "\<And>g. sem g L' = sem g L" using L' by (cases c; case_tac g) auto
  show "m_mode L' = m_mode L" using L' by (cases c) auto
qed

lemma stmt_step_IfPreDecIs0:
  assumes "stmt_step (IfPreDecIs0 c b) L = Some (e, L', pre)"
  shows "pre = (if count c L' = 0 then [b] else [])" "count c L' = count c L - 1"
    "\<And>d. d \<noteq> c \<Longrightarrow> count d L' = count d L" "\<And>g. sem g L' = sem g L" "m_mode L' = m_mode L"
proof -
  from assms have L': "L' = count_update c (count c L - 1) L"
    and pre: "pre = (if count c L - 1 = 0 then [b] else [])"
    by (auto simp: Let_def)
  show "count c L' = count c L - 1" using L' by (cases c) auto
  then show "pre = (if count c L' = 0 then [b] else [])" using pre by simp
  show "\<And>d. d \<noteq> c \<Longrightarrow> count d L' = count d L" using L' by (cases c; case_tac d) auto
  show "\<And>g. sem g L' = sem g L" using L' by (cases c; case_tac g) auto
  show "m_mode L' = m_mode L" using L' by (cases c) auto
qed

lemma stmt_step_effect:
  assumes "stmt_step c L = Some (e, L', pre)"
  shows "m_mode L' = m_mode L \<and>
    (case c of
       SemAcquire g \<Rightarrow> pre = [] \<and> avail (sem g L) = Suc (avail (sem g L')) \<and>
         (\<forall>h. h \<noteq> g \<longrightarrow> sem h L' = sem h L) \<and> (\<forall>d. count d L' = count d L)
     | SemRelease g \<Rightarrow> pre = [] \<and> (avail (sem g L) \<le> 1 \<longrightarrow> avail (sem g L') = Suc (avail (sem g L))) \<and>
         (\<forall>h. h \<noteq> g \<longrightarrow> sem h L' = sem h L) \<and> (\<forall>d. count d L' = count d L)
     | IfPreIncIs1 d b \<Rightarrow> pre = (if count d L' = 1 then [b] else []) \<and> count d L' = count d L + 1 \<and>
         (\<forall>d'. d' \<noteq> d \<longrightarrow> count d' L' = count d' L) \<and> (\<forall>g. sem g L' = sem g L)
     | IfPreDecIs0 d b \<Rightarrow> pre = (if count d L' = 0 then [b] else []) \<and> count d L' = count d L - 1 \<and>
         (\<forall>d'. d' \<noteq> d \<longrightarrow> count d' L' = count d' L) \<and> (\<forall>g. sem g L' = sem g L))"
proof (cases c)
  case (SemAcquire g)
  with assms stmt_step_SemAcquire [of g L e L' pre] show ?thesis by simp
next
  case (SemRelease g)
  with assms stmt_step_SemRelease [of g L e L' pre] show ?thesis by simp
next
  case (IfPreIncIs1 d b)
  with assms stmt_step_IfPreIncIs1 [of d b L e L' pre] show ?thesis by simp
next
  case (IfPreDecIs0 d b)
  with assms stmt_step_IfPreDecIs0 [of d b L e L' pre] show ?thesis by simp
qed

lemma all_sem_field: "(\<forall>g. P g) \<longleftrightarrow> P M_order \<and> P M_resource \<and> P M_rmutex \<and> P M_wmutex"
  by (metis sem_field.exhaust)

lemma all_count_field: "(\<forall>c. P c) \<longleftrightarrow> P M_readcount \<and> P M_writecount"
  by (metis count_field.exhaust)

lemma sum_over_hole:
  "i < length gs \<Longrightarrow> gs ! i = [] \<Longrightarrow> f [] = 0 \<Longrightarrow> sum_over f (gs[i := x]) = sum_over f gs + f x"
  using sum_over_update [of i gs f x] by simp

lemma active_Nil [simp]: "active c [] = 0"
  by (simp add: active_def)

lemma ghost_rel:
  "sum_over (entering M_readcount) gs \<le> sum_over (holds M_rmutex) gs"
  "sum_over (entering M_writecount) gs \<le> sum_over (holds M_wmutex) gs"
  "sum_over (active M_readcount) gs + sum_over (entering M_readcount) gs = sum_over (counted M_readcount) gs"
  "sum_over (active M_writecount) gs + sum_over (entering M_writecount) gs = sum_over (counted M_writecount) gs"
  using sum_over_mono [of "entering M_readcount" "holds M_rmutex" gs, OF entering_le_holds [of M_readcount, simplified]]
    sum_over_mono [of "entering M_writecount" "holds M_wmutex" gs, OF entering_le_holds [of M_writecount, simplified]]
    sum_over_add [of "active M_readcount" "entering M_readcount" "counted M_readcount" gs, OF active_entering]
    sum_over_add [of "active M_writecount" "entering M_writecount" "counted M_writecount" gs, OF active_entering]
  by simp_all

lemma advance_RP:
  assumes "i < length gs" "gs ! i = []" "ghost_inv L (gs[i := c # rest])"
    and "c # rest \<in> set (futures ReadersPriority)" "stmt_step c L = Some (e, L', pre)"
  shows "ghost_inv L' (gs[i := pre @ rest]) \<and> pre @ rest \<in> set (futures ReadersPriority)"
  using assms(4) assms(1,2,3,5) ghost_rel [of gs]
  apply (simp add: futures_def dispatch bodies)
  apply (elim disjE conjE; hypsubst; frule stmt_step_effect;
      simp add: ghost_inv_def all_sem_field all_count_field sum_over_hole active_def split: if_splits)
  done

lemma advance_WP:
  assumes "i < length gs" "gs ! i = []" "ghost_inv L (gs[i := c # rest])"
    and "c # rest \<in> set (futures WritersPriority)" "stmt_step c L = Some (e, L', pre)"
  shows "ghost_inv L' (gs[i := pre @ rest]) \<and> pre @ rest \<in> set (futures WritersPriority)"
  using assms(4) assms(1,2,3,5) ghost_rel [of gs]
  apply (simp add: futures_def dispatch bodies mode_distinct)
  apply (elim disjE conjE; hypsubst; frule stmt_step_effect;
      simp add: ghost_inv_def all_sem_field all_count_field sum_over_hole active_def split: if_splits)
  done

lemma advance_FO:
  assumes "i < length gs" "gs ! i = []" "ghost_inv L (gs[i := c # rest])"
    and "c # rest \<in> set (futures FairOrder)" "stmt_step c L = Some (e, L', pre)"
  shows "ghost_inv L' (gs[i := pre @ rest]) \<and> pre @ rest \<in> set (futures FairOrder)"
  using assms(4) assms(1,2,3,5) ghost_rel [of gs]
  apply (simp add: futures_def dispatch bodies mode_distinct)
  apply (elim disjE conjE; hypsubst; frule stmt_step_effect;
      simp add: ghost_inv_def all_sem_field all_count_field sum_over_hole active_def split: if_splits)
  done


lemma futures_cases:
  "futures m = futures ReadersPriority \<or> futures m = futures WritersPriority \<or>
   futures m = futures FairOrder"
  by (simp add: futures_def dispatch mode_distinct)

lemma advance:
  assumes "i < length gs" "gs ! i = []" "ghost_inv L (gs[i := c # rest])"
    and "c # rest \<in> set (futures m)" "stmt_step c L = Some (e, L', pre)"
  shows "ghost_inv L' (gs[i := pre @ rest]) \<and> pre @ rest \<in> set (futures m)"
  using futures_cases [of m] advance_RP [OF assms(1,2,3) _ assms(5)]
    advance_WP [OF assms(1,2,3) _ assms(5)] advance_FO [OF assms(1,2,3) _ assms(5)] assms(4)
  by auto

lemma sum_over_replicate: "f x = 0 \<Longrightarrow> sum_over f (replicate n x) = 0"
  by (induction n) auto

lemma Nil_in_futures: "[] \<in> set (futures m)"
  by (simp add: futures_def dispatch bodies)

lemma sys_inv_new: "sys_inv m n (new_system m n)"
  by (simp add: sys_inv_def new_system_def RWLock_init_def Semaphore_init_def ghost_inv_def
      all_sem_field all_count_field sum_over_replicate map_replicate avail_def Nil_in_futures)

text \<open>A thread that enters the lock: its future holds nothing yet.\<close>

lemma enter_values:
  assumes "x = AcquireShared m @ ReleaseShared m \<or> x = AcquireExclusive m @ ReleaseExclusive m"
  shows "holds g x = 0" "counted c x = 0" "active c x = 0" "x \<in> set (futures m)"
proof -
  show "holds g x = 0" using assms by (cases g) (auto simp: dispatch bodies)
  show "counted c x = 0" using assms by (cases c) (auto simp: dispatch bodies)
  then show "active c x = 0" by (simp add: active_def)
  show "x \<in> set (futures m)" using assms by (auto simp: futures_def dispatch bodies)
qed

lemma enter_future:
  assumes "i < length gs" "gs ! i = []" "ghost_inv L gs"
    and "x = AcquireShared m @ ReleaseShared m \<or> x = AcquireExclusive m @ ReleaseExclusive m"
  shows "ghost_inv L (gs[i := x]) \<and> x \<in> set (futures m)"
  using assms(1,2,3) enter_values [OF assms(4)]
  by (simp add: ghost_inv_def all_sem_field all_count_field sum_over_hole)

lemma future_call:
  "may_call t op \<Longrightarrow>
   future m (Inside op (body op m)) =
     (if t = Outside then (if op = OpAcquireShared then AcquireShared m @ ReleaseShared m
                           else AcquireExclusive m @ ReleaseExclusive m)
      else future m t)"
  by (cases "(t, op)" rule: may_call.cases) auto

lemma future_returned: "future m (returned op) = future m (Inside op [])"
  by (cases op) auto

lemma future_Inside: "future m (Inside op (cs @ ds)) = cs @ future m (Inside op ds)"
  by (cases op) auto

lemma in_set_update: "t \<in> set (xs[i := y]) \<Longrightarrow> t = y \<or> t \<in> set xs"
  by (metis in_set_conv_nth length_list_update nth_list_update_eq nth_list_update_neq nth_mem)

lemma sys_step_inv:
  assumes inv: "sys_inv m n S" and step: "sys_step (i, a) S = Some S'"
  shows "sys_inv m n S'"
proof -
  let ?ts = "threads S" and ?L = "lock S"
  let ?fs = "map (future m) ?ts"
  from inv have len: "length ?ts = n" and mode: "m_mode ?L = m"
    and val: "\<forall>t \<in> set ?ts. future m t \<in> set (futures m)"
    and gi: "ghost_inv ?L ?fs"
    by (auto simp: sys_inv_def)
  from step obtain t' L' where i: "i < length ?ts"
    and ts: "thread_step a (?ts ! i) ?L = Some (t', L')"
    and S': "S' = \<lparr>lock = L', threads = ?ts[i := t']\<rparr>"
    by (auto simp: sys_step_def split: if_splits option.splits)
  have fs': "map (future m) (?ts[i := t']) = ?fs[i := future m t']"
    by (rule map_update)
  have goal: "sys_inv m n S'"
    if "m_mode L' = m" and "ghost_inv L' (?fs[i := future m t'])" and "future m t' \<in> set (futures m)"
    using that val len by (auto simp: sys_inv_def S' fs' dest!: in_set_update)
  show ?thesis
  proof (cases a)
    case (Call op)
    with ts have mc: "may_call (?ts ! i) op" and t': "t' = Inside op (body op m)" and L': "L' = ?L"
      using mode by (auto split: if_splits)
    show ?thesis
    proof (cases "?ts ! i = Outside")
      case True
      then have hole: "?fs ! i = []" using i by simp
      from mc True have x: "future m t' = AcquireShared m @ ReleaseShared m \<or>
          future m t' = AcquireExclusive m @ ReleaseExclusive m"
        by (simp add: t' future_call)
      from enter_future [OF _ hole gi x] i mode L' show ?thesis by (intro goal) auto
    next
      case False
      with mc have "future m t' = future m (?ts ! i)" by (simp add: t' future_call)
      then have "future m t' = ?fs ! i" using i by simp
      moreover from this have "?fs[i := future m t'] = ?fs" by (simp add: list_update_same_conv i)
      moreover have "?fs ! i \<in> set (futures m)" using val i by simp
      ultimately show ?thesis using gi mode L' by (intro goal) auto
    qed
  next
    case Step
    with ts obtain op cs where ti: "?ts ! i = Inside op cs"
      by (cases "?ts ! i") auto
    show ?thesis
    proof (cases cs)
      case Nil
      with ts ti Step have t': "t' = returned op" and L': "L' = ?L" by auto
      have "future m t' = ?fs ! i" using i ti Nil t' by (simp add: future_returned)
      moreover from this have "?fs[i := future m t'] = ?fs" by (simp add: list_update_same_conv i)
      moreover have "?fs ! i \<in> set (futures m)" using val i by simp
      ultimately show ?thesis using gi mode L' by (intro goal) auto
    next
      case (Cons c rest)
      with ts ti Step obtain e pre where st: "stmt_step c ?L = Some (e, L', pre)"
        and t': "t' = Inside op (pre @ rest)"
        by (auto split: option.splits)
      let ?tail = "future m (Inside op rest)"
      have Fi: "?fs ! i = c # ?tail"
        using i ti Cons future_Inside [of m op "[c]" rest] by simp
      have Ft: "future m t' = pre @ ?tail"
        by (simp add: t' future_Inside)
      let ?gs = "?fs[i := []]"
      have gs: "i < length ?gs" "?gs ! i = []" using i by simp_all
      have "?gs[i := c # ?tail] = ?fs" using Fi i by (simp add: list_update_same_conv)
      with gi have gi': "ghost_inv ?L (?gs[i := c # ?tail])" by simp
      have mem: "c # ?tail \<in> set (futures m)" using val i Fi by (metis nth_map nth_mem)
      from advance [OF gs gi' mem st]
      have "ghost_inv L' (?gs[i := pre @ ?tail])" and "pre @ ?tail \<in> set (futures m)" by auto
      moreover have "m_mode L' = m" using stmt_step_effect [OF st] mode by simp
      ultimately show ?thesis using Ft by (intro goal) auto
    qed
  qed
qed

lemma sys_run_inv:
  "sys_inv m n S \<Longrightarrow> sys_run sched S = Some S' \<Longrightarrow> sys_inv m n S'"
proof (induction sched arbitrary: S)
  case Nil
  then show ?case by simp
next
  case (Cons ia sched)
  from Cons.prems(2) obtain S1 where s1: "sys_step ia S = Some S1" and r: "sys_run sched S1 = Some S'"
    by (auto split: option.splits)
  from s1 Cons.prems(1) have "sys_inv m n S1" by (cases ia) (auto intro: sys_step_inv)
  then show ?case using r by (rule Cons.IH)
qed

lemma reachable_inv: "sys_run sched (new_system m n) = Some S \<Longrightarrow> sys_inv m n S"
  using sys_inv_new sys_run_inv by blast

section \<open>Mutual exclusion, balanced accounting, the fixed mode\<close>

lemma sum_over_nth_le: "i < length xs \<Longrightarrow> f (xs ! i) \<le> sum_over f xs"
  using sum_over_update [of i xs f "xs ! i"]
proof (induction xs arbitrary: i)
  case Nil
  then show ?case by simp
next
  case (Cons x xs)
  then show ?case by (cases i) (auto intro: trans_le_add2)
qed

lemma sum_over_two_le:
  assumes "i < length xs" "j < length xs" "i \<noteq> j" "f z = 0"
  shows "f (xs ! i) + f (xs ! j) \<le> sum_over f xs"
proof -
  let ?ys = "xs[i := z]"
  have "f (?ys ! j) \<le> sum_over f ?ys" using assms by (intro sum_over_nth_le) simp
  moreover have "?ys ! j = xs ! j" using assms by simp
  moreover have "sum_over f ?ys + f (xs ! i) = sum_over f xs + f z"
    using assms by (intro sum_over_update)
  ultimately show ?thesis using assms(4) by simp
qed

lemma exclusive_values: "holds M_resource (ReleaseExclusive m) = 1"
  by (simp add: dispatch bodies)

lemma shared_values: "active M_readcount (ReleaseShared m) = 1"
  by (simp add: dispatch bodies active_def)

lemma avail_0: "avail s = 0 \<longleftrightarrow> m_avail s = 0"
  by (simp add: avail_def unat_eq_0)

lemma holders_exclude:
  assumes inv: "sys_inv m n S" and i: "i < n" and ti: "threads S ! i = HoldsExclusive"
  shows "sum_over (holds M_resource) (map (future m) (threads S)) = 1"
    and "sum_over (active M_readcount) (map (future m) (threads S)) = 0"
    and "avail (m_resource (lock S)) = 0"
proof -
  let ?fs = "map (future m) (threads S)"
  from inv have len: "length ?fs = n"
    and res: "avail (m_resource (lock S)) + sum_over (holds M_resource) ?fs +
        (if 0 < sum_over (active M_readcount) ?fs then 1 else 0) = 1"
    by (simp_all add: sys_inv_def ghost_inv_def all_sem_field)
  have "holds M_resource (?fs ! i) = 1" using i len ti by (simp add: exclusive_values)
  with sum_over_nth_le [of i ?fs "holds M_resource"] i len
  have "1 \<le> sum_over (holds M_resource) ?fs" by simp
  with res show "sum_over (holds M_resource) ?fs = 1"
    and "sum_over (active M_readcount) ?fs = 0"
    and "avail (m_resource (lock S)) = 0"
    by (auto split: if_splits)
qed

lemma shared_holder_gate:
  assumes inv: "sys_inv m n S" and j: "j < n" and tj: "threads S ! j = HoldsShared"
  shows "0 < sum_over (active M_readcount) (map (future m) (threads S))"
    and "avail (m_resource (lock S)) = 0"
proof -
  let ?fs = "map (future m) (threads S)"
  from inv have len: "length ?fs = n"
    and res: "avail (m_resource (lock S)) + sum_over (holds M_resource) ?fs +
        (if 0 < sum_over (active M_readcount) ?fs then 1 else 0) = 1"
    by (simp_all add: sys_inv_def ghost_inv_def all_sem_field)
  have "active M_readcount (?fs ! j) = 1" using j len tj by (simp add: shared_values)
  with sum_over_nth_le [of j ?fs "active M_readcount"] j len
  show "0 < sum_over (active M_readcount) ?fs" by simp
  with res show "avail (m_resource (lock S)) = 0" by simp
qed

text \<open>
  C1. Mutual exclusion, for every mode, every number of threads and every interleaving:
  while one thread holds the lock exclusive (between the return of its
  \<open>AcquireExclusive\<close> and its call of \<open>ReleaseExclusive\<close>), no other thread holds it
  exclusive or shared; and whenever a thread holds the lock, shared or exclusive,
  \<open>m_resource\<close> is unavailable.
\<close>

theorem mutual_exclusion:
  assumes "sys_run sched (new_system mode n) = Some S"
  shows "(\<forall>i<n. \<forall>j<n. i \<noteq> j \<and> threads S ! i = HoldsExclusive \<longrightarrow>
            threads S ! j \<noteq> HoldsExclusive \<and> threads S ! j \<noteq> HoldsShared) \<and>
         (HoldsExclusive \<in> set (threads S) \<or> HoldsShared \<in> set (threads S) \<longrightarrow>
            m_avail (m_resource (lock S)) = 0)"
proof (intro conjI allI impI)
  from assms have inv: "sys_inv mode n S" by (rule reachable_inv)
  then have len: "length (threads S) = n" by (simp add: sys_inv_def)
  let ?fs = "map (future mode) (threads S)"
  {
    fix i j assume i: "i < n" and j: "j < n" and h: "i \<noteq> j \<and> threads S ! i = HoldsExclusive"
    note ex = holders_exclude [OF inv i conjunct2 [OF h]]
    show "threads S ! j \<noteq> HoldsExclusive"
    proof
      assume tj: "threads S ! j = HoldsExclusive"
      have "holds M_resource (?fs ! i) + holds M_resource (?fs ! j) \<le> sum_over (holds M_resource) ?fs"
        using i j h len by (intro sum_over_two_le [where z = "[]"]) auto
      then show False using ex(1) i j len h tj by (simp add: exclusive_values)
    qed
    show "threads S ! j \<noteq> HoldsShared"
    proof
      assume tj: "threads S ! j = HoldsShared"
      from shared_holder_gate(1) [OF inv j tj] ex(2) show False by simp
    qed
  }
  assume "HoldsExclusive \<in> set (threads S) \<or> HoldsShared \<in> set (threads S)"
  then obtain k where "k < n" and "threads S ! k = HoldsExclusive \<or> threads S ! k = HoldsShared"
    using len by (auto simp: in_set_conv_nth)
  then have "avail (m_resource (lock S)) = 0"
    using holders_exclude(3) [OF inv] shared_holder_gate(2) [OF inv] by blast
  then show "m_avail (m_resource (lock S)) = 0" by (simp add: avail_0)
qed

theorem mutual_exclusion_witness:
  "sys_run
     [(0, Call OpAcquireExclusive), (0, Step), (0, Step), (0, Step), (0, Step),
      (1, Call OpAcquireShared), (1, Step), (1, Step), (1, Step)]
     (new_system FairOrder 2) =
   Some \<lparr>lock = \<lparr>m_mode = FairOrder, m_order = \<lparr>m_avail = 0\<rparr>, m_resource = \<lparr>m_avail = 0\<rparr>,
            m_rmutex = \<lparr>m_avail = 0\<rparr>, m_wmutex = \<lparr>m_avail = 1\<rparr>, m_readcount = 1,
            m_writecount = 0\<rparr>,
         threads = [HoldsExclusive,
            Inside OpAcquireShared [SemAcquire M_resource, SemRelease M_order, SemRelease M_rmutex]]\<rparr> \<and>
   [HoldsExclusive,
    Inside OpAcquireShared [SemAcquire M_resource, SemRelease M_order, SemRelease M_rmutex]] ! 1
     \<noteq> HoldsShared \<and>
   m_avail (m_resource \<lparr>m_mode = FairOrder, m_order = \<lparr>m_avail = 0\<rparr>,
      m_resource = \<lparr>m_avail = 0\<rparr>, m_rmutex = \<lparr>m_avail = 0\<rparr>, m_wmutex = \<lparr>m_avail = 1\<rparr>,
      m_readcount = 1, m_writecount = 0\<rparr>) = 0"
proof -
  let ?L = "\<lparr>m_mode = FairOrder, m_order = \<lparr>m_avail = 0\<rparr>, m_resource = \<lparr>m_avail = 0\<rparr>,
            m_rmutex = \<lparr>m_avail = 0\<rparr>, m_wmutex = \<lparr>m_avail = 1\<rparr>, m_readcount = 1,
            m_writecount = 0\<rparr>"
  let ?ts = "[HoldsExclusive,
            Inside OpAcquireShared [SemAcquire M_resource, SemRelease M_order, SemRelease M_rmutex]]"
  let ?S = "\<lparr>lock = ?L, threads = ?ts\<rparr>"
  have r: "sys_run
     [(0, Call OpAcquireExclusive), (0, Step), (0, Step), (0, Step), (0, Step),
      (1, Call OpAcquireShared), (1, Step), (1, Step), (1, Step)]
     (new_system FairOrder 2) = Some ?S"
    by code_simp
  have a: "(0::nat) < 2" "(1::nat) < 2" "(0::nat) \<noteq> 1" by simp_all
  have b: "threads ?S ! 0 = HoldsExclusive" by simp
  have c: "HoldsExclusive \<in> set (threads ?S)" by simp
  from mutual_exclusion [OF r] a b have "threads ?S ! 1 \<noteq> HoldsShared" by blast
  then have d: "?ts ! 1 \<noteq> HoldsShared" by simp
  from mutual_exclusion [OF r] c have "m_avail (m_resource (lock ?S)) = 0" by blast
  then have e: "m_avail (m_resource ?L) = 0" by simp
  from r d e show ?thesis by (intro conjI)
qed

lemma avail_1: "avail s = 1 \<Longrightarrow> s = Semaphore_init"
proof -
  assume "avail s = 1"
  then have "unat (m_avail s) = unat (1 :: 64 word)" by (simp add: avail_def)
  then have "m_avail s = 1" by (simp only: word_unat_eq_iff)
  then show ?thesis by (simp add: Semaphore_init_def)
qed

lemma all_Outside_futures:
  "\<forall>t \<in> set ts. t = Outside \<Longrightarrow> map (future m) ts = replicate (length ts) []"
  by (induction ts) auto

text \<open>
  C7. Balanced accounting, for every mode and every interleaving: in a state in which
  every thread is outside the lock (each acquire has been followed by its release and
  no operation is in progress) the lock is as it was constructed: \<open>m_readcount = 0\<close>
  and all four semaphores available.
\<close>

theorem balanced_accounting:
  assumes "sys_run sched (new_system mode n) = Some S"
    and "\<forall>t \<in> set (threads S). t = Outside"
  shows "lock S = RWLock_init mode \<and> m_readcount (lock S) = 0 \<and>
         m_avail (m_resource (lock S)) = 1 \<and> m_avail (m_order (lock S)) = 1 \<and>
         m_avail (m_rmutex (lock S)) = 1 \<and> m_avail (m_wmutex (lock S)) = 1"
proof -
  from assms(1) have inv: "sys_inv mode n S" by (rule reachable_inv)
  let ?fs = "map (future mode) (threads S)"
  have z: "sum_over f ?fs = 0" if "f [] = 0" for f :: "stmt list \<Rightarrow> nat"
  proof -
    have eq: "?fs = replicate (length (threads S)) []"
      using assms(2) by (rule all_Outside_futures)
    show ?thesis by (subst eq) (rule sum_over_replicate [of f "[]", OF that])
  qed
  from inv have gi: "ghost_inv (lock S) ?fs" and mode: "m_mode (lock S) = mode"
    by (simp_all add: sys_inv_def)
  from gi have a: "avail (m_order (lock S)) = 1" "avail (m_resource (lock S)) = 1"
    "avail (m_rmutex (lock S)) = 1" "avail (m_wmutex (lock S)) = 1"
    and c: "m_readcount (lock S) = 0" "m_writecount (lock S) = 0"
    by (simp_all add: ghost_inv_def all_sem_field all_count_field z)
  note a [THEN avail_1]
  with mode c have "lock S = RWLock_init mode"
    by (intro RWLock.equality) (simp_all add: RWLock_init_def)
  then show ?thesis by (simp add: RWLock_init_def Semaphore_init_def)
qed

theorem balanced_accounting_witness:
  "sys_run
     [(1, Call OpAcquireShared), (1, Step), (1, Step),
      (0, Call OpAcquireExclusive), (0, Step), (0, Step),
      (1, Step), (1, Step), (1, Step), (1, Step), (1, Step),
      (0, Step), (0, Step),
      (1, Call OpReleaseShared), (1, Step), (1, Step), (1, Step), (1, Step), (1, Step),
      (0, Step), (0, Step),
      (0, Call OpReleaseExclusive), (0, Step), (0, Step), (0, Step), (0, Step), (0, Step),
      (0, Step)]
     (new_system WritersPriority 2) =
   Some \<lparr>lock = RWLock_init WritersPriority, threads = [Outside, Outside]\<rparr> \<and>
   m_readcount (RWLock_init WritersPriority) = 0"
proof -
  let ?S = "\<lparr>lock = RWLock_init WritersPriority, threads = [Outside, Outside]\<rparr>"
  have r: "sys_run
     [(1, Call OpAcquireShared), (1, Step), (1, Step),
      (0, Call OpAcquireExclusive), (0, Step), (0, Step),
      (1, Step), (1, Step), (1, Step), (1, Step), (1, Step),
      (0, Step), (0, Step),
      (1, Call OpReleaseShared), (1, Step), (1, Step), (1, Step), (1, Step), (1, Step),
      (0, Step), (0, Step),
      (0, Call OpReleaseExclusive), (0, Step), (0, Step), (0, Step), (0, Step), (0, Step),
      (0, Step)]
     (new_system WritersPriority 2) = Some ?S"
    by code_simp
  have h: "\<forall>t \<in> set (threads ?S). t = Outside" by simp
  from balanced_accounting [OF r h] have "m_readcount (lock ?S) = 0" by (rule conjunct1 [OF conjunct2])
  then have "m_readcount (RWLock_init WritersPriority) = 0" by (simp only: system.simps)
  with r show ?thesis by (rule conjI)
qed

lemma run_mode: "run cs L = Some (es, L') \<Longrightarrow> m_mode L' = m_mode L"
proof (induction cs L arbitrary: es L' rule: run.induct)
  case (1 L)
  then show ?case by simp
next
  case (2 c cs L)
  from "2.prems" obtain e L1 pre es1 where st: "stmt_step c L = Some (e, L1, pre)"
    and r: "run (pre @ cs) L1 = Some (es1, L')"
    by (auto split: option.splits)
  from "2.IH" [OF st refl refl r] stmt_step_effect [OF st] show ?case by simp
qed

text \<open>
  C8. The mode is fixed at construction: in every reachable state \<open>m_mode\<close> is the mode
  the lock was constructed with, no step of any thread changes it, every call enters the
  body selected by that mode, and a public operation run by one thread alone leaves
  \<open>m_mode\<close> as it found it.
\<close>

theorem mode_immutable:
  assumes "sys_run sched (new_system mode n) = Some S"
  shows "m_mode (lock S) = mode \<and>
         (\<forall>ia S'. sys_step ia S = Some S' \<longrightarrow> m_mode (lock S') = mode) \<and>
         (\<forall>i op S'. sys_step (i, Call op) S = Some S' \<longrightarrow>
            threads S' ! i = Inside op (body op mode)) \<and>
         (\<forall>op L es L'. call op L = Some (es, L') \<longrightarrow> m_mode L' = m_mode L)"
proof (intro conjI allI impI)
  from assms have inv: "sys_inv mode n S" by (rule reachable_inv)
  then show m: "m_mode (lock S) = mode" by (simp add: sys_inv_def)
  show "m_mode (lock S') = mode" if "sys_step ia S = Some S'" for ia S'
    using sys_step_inv [OF inv, of "fst ia" "snd ia" S'] that by (simp add: sys_inv_def)
  show "threads S' ! i = Inside op (body op mode)" if "sys_step (i, Call op) S = Some S'" for i op S'
    using that m by (auto simp: sys_step_def split: if_splits)
  show "m_mode L' = m_mode L" if "call op L = Some (es, L')" for op L es L'
    using that by (auto simp: call_def dest: run_mode)
qed

theorem mode_immutable_witness:
  "sys_run
     [(0, Call OpAcquireExclusive), (0, Step), (0, Step), (0, Step), (0, Step)]
     (new_system FairOrder 2) =
   Some \<lparr>lock = \<lparr>m_mode = FairOrder, m_order = \<lparr>m_avail = 1\<rparr>, m_resource = \<lparr>m_avail = 0\<rparr>,
            m_rmutex = \<lparr>m_avail = 1\<rparr>, m_wmutex = \<lparr>m_avail = 1\<rparr>, m_readcount = 0,
            m_writecount = 0\<rparr>,
         threads = [HoldsExclusive, Outside]\<rparr> \<and>
   sys_step (1, Call OpAcquireShared)
     \<lparr>lock = \<lparr>m_mode = FairOrder, m_order = \<lparr>m_avail = 1\<rparr>, m_resource = \<lparr>m_avail = 0\<rparr>,
            m_rmutex = \<lparr>m_avail = 1\<rparr>, m_wmutex = \<lparr>m_avail = 1\<rparr>, m_readcount = 0,
            m_writecount = 0\<rparr>,
         threads = [HoldsExclusive, Outside]\<rparr> =
   Some \<lparr>lock = \<lparr>m_mode = FairOrder, m_order = \<lparr>m_avail = 1\<rparr>, m_resource = \<lparr>m_avail = 0\<rparr>,
            m_rmutex = \<lparr>m_avail = 1\<rparr>, m_wmutex = \<lparr>m_avail = 1\<rparr>, m_readcount = 0,
            m_writecount = 0\<rparr>,
         threads = [HoldsExclusive, Inside OpAcquireShared AcquireShared3]\<rparr> \<and>
   [HoldsExclusive, Inside OpAcquireShared AcquireShared3] ! 1 =
     Inside OpAcquireShared (body OpAcquireShared FairOrder) \<and>
   call OpReleaseExclusive
     \<lparr>m_mode = FairOrder, m_order = \<lparr>m_avail = 1\<rparr>, m_resource = \<lparr>m_avail = 0\<rparr>,
      m_rmutex = \<lparr>m_avail = 1\<rparr>, m_wmutex = \<lparr>m_avail = 1\<rparr>, m_readcount = 0,
      m_writecount = 0\<rparr> =
   Some ([Released M_resource], RWLock_init FairOrder) \<and>
   m_mode (RWLock_init FairOrder) = FairOrder"
proof -
  let ?L = "\<lparr>m_mode = FairOrder, m_order = \<lparr>m_avail = 1\<rparr>, m_resource = \<lparr>m_avail = 0\<rparr>,
            m_rmutex = \<lparr>m_avail = 1\<rparr>, m_wmutex = \<lparr>m_avail = 1\<rparr>, m_readcount = 0,
            m_writecount = 0\<rparr>"
  let ?S = "\<lparr>lock = ?L, threads = [HoldsExclusive, Outside]\<rparr>"
  let ?S' = "\<lparr>lock = ?L, threads = [HoldsExclusive, Inside OpAcquireShared AcquireShared3]\<rparr>"
  have r: "sys_run
     [(0, Call OpAcquireExclusive), (0, Step), (0, Step), (0, Step), (0, Step)]
     (new_system FairOrder 2) = Some ?S"
    by code_simp
  have s: "sys_step (1, Call OpAcquireShared) ?S = Some ?S'"
    by code_simp
  have c: "call OpReleaseExclusive ?L = Some ([Released M_resource], RWLock_init FairOrder)"
    by code_simp
  note m = mode_immutable [OF r]
  from m s have "threads ?S' ! 1 = Inside OpAcquireShared (body OpAcquireShared FairOrder)"
    by blast
  then have t: "[HoldsExclusive, Inside OpAcquireShared AcquireShared3] ! 1 =
     Inside OpAcquireShared (body OpAcquireShared FairOrder)" by (simp only: system.simps)
  from m have "m_mode (lock ?S) = FairOrder" by blast
  then have l: "m_mode ?L = FairOrder" by (simp only: system.simps)
  from m c have "m_mode (RWLock_init FairOrder) = m_mode ?L" by blast
  with l have "m_mode (RWLock_init FairOrder) = FairOrder" by simp
  with r s t c show ?thesis by (intro conjI)
qed

text \<open>
  The counters are touched under their mutex only: two threads are never both about to
  run a statement on the same counter. This is what lets \<open>stmt_step\<close> take
  \<open>++c == 1\<close> and \<open>--c == 0\<close> as one action.
\<close>

lemma counter_stmt_guarded:
  assumes "c # rest \<in> set (futures m)" and "counter_of c = Some d"
  shows "holds (guard_of d) (c # rest) = 1"
proof -
  have "\<forall>F \<in> set (futures m'). \<forall>c rest. F = c # rest \<and> counter_of c = Some d \<longrightarrow> holds (guard_of d) F = 1"
    if "m' = ReadersPriority \<or> m' = WritersPriority \<or> m' = FairOrder" for m'
    using that by (auto simp: futures_def dispatch bodies mode_distinct)
  moreover from futures_cases [of m] obtain m' where "futures m = futures m'"
    and "m' = ReadersPriority \<or> m' = WritersPriority \<or> m' = FairOrder" by auto
  ultimately show ?thesis using assms by auto
qed

lemma counters_under_mutex:
  assumes reach: "sys_run sched (new_system mode n) = Some S"
    and ij: "i < n" "j < n" "i \<noteq> j"
    and ti: "threads S ! i = Inside op (c # cs)" "counter_of c = Some d"
    and tj: "threads S ! j = Inside op' (c' # cs')" "counter_of c' = Some d"
  shows False
proof -
  from reach have inv: "sys_inv mode n S" by (rule reachable_inv)
  let ?fs = "map (future mode) (threads S)"
  from inv have len: "length (threads S) = n"
    and val: "\<forall>t \<in> set (threads S). future mode t \<in> set (futures mode)"
    and gi: "ghost_inv (lock S) ?fs"
    by (simp_all add: sys_inv_def)
  have fi: "?fs ! i = c # future mode (Inside op cs)"
    using ij len ti(1) future_Inside [of mode op "[c]" cs] by simp
  have fj: "?fs ! j = c' # future mode (Inside op' cs')"
    using ij len tj(1) future_Inside [of mode op' "[c']" cs'] by simp
  have "?fs ! i \<in> set (futures mode)" "?fs ! j \<in> set (futures mode)"
    using val ij len by simp_all
  then have mi: "c # future mode (Inside op cs) \<in> set (futures mode)"
    and mj: "c' # future mode (Inside op' cs') \<in> set (futures mode)"
    unfolding fi fj .
  have "holds (guard_of d) (?fs ! i) = 1" "holds (guard_of d) (?fs ! j) = 1"
    unfolding fi fj
    using counter_stmt_guarded [OF mi ti(2)] counter_stmt_guarded [OF mj tj(2)] .
  moreover have "holds (guard_of d) (?fs ! i) + holds (guard_of d) (?fs ! j)
      \<le> sum_over (holds (guard_of d)) ?fs"
    using ij len by (intro sum_over_two_le [where z = "[]"]) auto
  moreover from gi have "sum_over (holds (guard_of d)) ?fs \<le> 1"
    by (cases d) (auto simp: ghost_inv_def all_sem_field)
  ultimately show False by simp
qed

end
